theory Spec2Isabelle
  imports Complex_Main "HOL-Library.Sublist"
begin

section \<open>Python values\<close>

text \<open>
  A Python \<open>str\<close> is a sequence of Unicode code points, and \<open>len\<close> counts code points.
  A code point is a natural number here, so that a Hangul syllable is one character, as
  it is for \<open>len(normalized_keyword) == 1\<close> in \<open>keyword_match\<close>.
\<close>

type_synonym codepoint = nat
type_synonym pystr = "codepoint list"

text \<open>A literal of ASCII characters, as a Python \<open>str\<close>.\<close>

definition ascii :: "string \<Rightarrow> pystr" where
  "ascii s = map of_char s"

text \<open>A Python \<open>float\<close>, as far as the program looks at it: only \<open>pd.isna\<close> reads one.\<close>

datatype pyfloat = NaN | Inf bool | Finite rat

text \<open>
  What \<open>json.loads\<close> returns. An object is a \<open>dict\<close>; it keeps the order in which its keys
  were inserted, which \<open>overrides.items()\<close> follows, so it is an association list.
\<close>

datatype json =
    JNull
  | JBool bool
  | JInt int
  | JFloat pyfloat
  | JStr pystr
  | JArr "json list"
  | JObj "(pystr \<times> json) list"

text \<open>
  A scalar held by a cell of the \<open>DataFrame\<close>: \<open>row.get("material_name", "")\<close> and
  \<open>row.get("halal_status", "")\<close>.
\<close>

datatype cell =
    CNone
  | CNA
  | CBool bool
  | CInt int
  | CFloat pyfloat
  | CStr pystr

datatype error =
    KeyError
  | TypeError
  | AttributeError
  | IndexError
  | JSONDecodeError

section \<open>Library functions of \<open>str\<close> and \<open>re\<close>\<close>

text \<open>
  \<open>str.isspace\<close> on one code point; \<open>str.strip()\<close> and the class \<open>\s\<close> of a \<open>str\<close> pattern
  use the same test. The list is CPython's \<open>_PyUnicode_IsWhitespace\<close>.
\<close>

definition isspace :: "codepoint \<Rightarrow> bool" where
  "isspace c \<longleftrightarrow>
     (9 \<le> c \<and> c \<le> 13) \<or> (28 \<le> c \<and> c \<le> 32) \<or> c = 133 \<or> c = 160 \<or> c = 5760 \<or>
     (8192 \<le> c \<and> c \<le> 8202) \<or> c = 8232 \<or> c = 8233 \<or> c = 8239 \<or> c = 8287 \<or> c = 12288"

text \<open>
  \<open>str.lower()\<close> on one code point, for ASCII and the Latin-1 supplement (U+00D7 is the
  multiplication sign). Hangul and the other code points without case are unchanged, as
  in Python; the case tables of the cased scripts beyond U+00FF are outside this model.
\<close>

definition lower_cp :: "codepoint \<Rightarrow> codepoint" where
  "lower_cp c =
     (if 65 \<le> c \<and> c \<le> 90 then c + 32
      else if 192 \<le> c \<and> c \<le> 222 \<and> c \<noteq> 215 then c + 32
      else c)"

definition lower :: "pystr \<Rightarrow> pystr" where
  "lower s = map lower_cp s"

text \<open>\<open>s.strip()\<close>: the slice between the first and the last character that is not whitespace.\<close>

definition strip :: "pystr \<Rightarrow> pystr" where
  "strip s = rev (dropWhile isspace (rev (dropWhile isspace s)))"

text \<open>
  \<open>re.sub(r"\s+", "", s)\<close>: scanning from the left, every maximal run of whitespace is
  replaced by the empty string; the other characters are copied.
\<close>

function re_sub_ws :: "pystr \<Rightarrow> pystr" where
  "re_sub_ws [] = []"
| "re_sub_ws (c # cs) =
     (if isspace c then re_sub_ws (dropWhile isspace cs) else c # re_sub_ws cs)"
  by pat_completeness auto
termination
  by (relation "measure length") (auto simp: length_dropWhile_le less_Suc_eq_le)

section \<open>\<open>normalize\<close>\<close>

text \<open>
  \<^verbatim>\<open>
  def normalize(text: str) -> str:
      if not isinstance(text, str):
          return ""
      lowered = text.strip().lower()
      lowered = re.sub(r"\s+", "", lowered)
      return lowered
  \<close>
  The constant is \<open>normalize_text\<close>, since \<open>normalize\<close> is a constant of HOL.
\<close>

fun normalize_text :: "json \<Rightarrow> pystr" where
  "normalize_text (JStr text) = re_sub_ws (lower (strip text))"
| "normalize_text _ = []"

section \<open>\<open>strip_json_comments\<close>\<close>

text \<open>The characters the scanner compares with.\<close>

abbreviation QUOTE :: codepoint where "QUOTE \<equiv> 34"
abbreviation BACKSLASH :: codepoint where "BACKSLASH \<equiv> 92"
abbreviation SLASH :: codepoint where "SLASH \<equiv> 47"
abbreviation STAR :: codepoint where "STAR \<equiv> 42"
abbreviation LF :: codepoint where "LF \<equiv> 10"
abbreviation CR :: codepoint where "CR \<equiv> 13"

text \<open>
  The inner loop of a line comment:
  \<^verbatim>\<open>while i < n and raw_text[i] not in ("\n", "\r"): i += 1\<close>
\<close>

function skip_line :: "pystr \<Rightarrow> nat \<Rightarrow> nat" where
  "skip_line raw_text i =
     (if i < length raw_text \<and> raw_text ! i \<noteq> LF \<and> raw_text ! i \<noteq> CR
      then skip_line raw_text (i + 1) else i)"
  by pat_completeness auto
termination
  by (relation "measure (\<lambda>(raw_text, i). length raw_text - i)") auto

declare skip_line.simps [simp del]

text \<open>
  The inner loop of a block comment:
  \<^verbatim>\<open>while i + 1 < n and not (raw_text[i] == "*" and raw_text[i + 1] == "/"): i += 1\<close>
\<close>

function skip_block :: "pystr \<Rightarrow> nat \<Rightarrow> nat" where
  "skip_block raw_text i =
     (if i + 1 < length raw_text \<and> \<not> (raw_text ! i = STAR \<and> raw_text ! (i + 1) = SLASH)
      then skip_block raw_text (i + 1) else i)"
  by pat_completeness auto
termination
  by (relation "measure (\<lambda>(raw_text, i). length raw_text - i)") auto

declare skip_block.simps [simp del]

lemma skip_line_ge: "i \<le> skip_line raw_text i"
proof (induction raw_text i rule: skip_line.induct)
  case (1 raw_text i)
  show ?case
  proof (cases "i < length raw_text \<and> raw_text ! i \<noteq> LF \<and> raw_text ! i \<noteq> CR")
    case True
    with 1 have "i + 1 \<le> skip_line raw_text (i + 1)" by blast
    with True show ?thesis by (subst skip_line.simps) simp
  next
    case False
    then show ?thesis by (subst skip_line.simps) auto
  qed
qed

lemma skip_block_ge: "i \<le> skip_block raw_text i"
proof (induction raw_text i rule: skip_block.induct)
  case (1 raw_text i)
  show ?case
  proof (cases "i + 1 < length raw_text \<and> \<not> (raw_text ! i = STAR \<and> raw_text ! (i + 1) = SLASH)")
    case True
    with 1 have "i + 1 \<le> skip_block raw_text (i + 1)" by blast
    with True show ?thesis by (subst skip_block.simps) simp
  next
    case False
    then show ?thesis by (subst skip_block.simps) auto
  qed
qed

text \<open>
  The main loop \<open>while i < n\<close>, with the loop variables \<open>i\<close>, \<open>in_string\<close>, \<open>escaped\<close> and
  \<open>result\<close> as arguments; each \<open>continue\<close> is a recursive call. The lookahead \<open>nxt\<close> is
  the empty string at the last character, so it equals neither \<open>"/"\<close> nor \<open>"*"\<close> there.
\<close>

function scan :: "pystr \<Rightarrow> nat \<Rightarrow> bool \<Rightarrow> bool \<Rightarrow> pystr \<Rightarrow> pystr" where
  "scan raw_text i in_string escaped result =
     (if i < length raw_text then
        (let ch = raw_text ! i;
             nxt = (if i + 1 < length raw_text then Some (raw_text ! (i + 1)) else None)
         in if in_string then
              (if escaped then scan raw_text (i + 1) True False (result @ [ch])
               else if ch = BACKSLASH then scan raw_text (i + 1) True True (result @ [ch])
               else if ch = QUOTE then scan raw_text (i + 1) False False (result @ [ch])
               else scan raw_text (i + 1) True False (result @ [ch]))
            else if ch = QUOTE then scan raw_text (i + 1) True escaped (result @ [ch])
            else if ch = SLASH \<and> nxt = Some SLASH then
              scan raw_text (skip_line raw_text (i + 2)) in_string escaped result
            else if ch = SLASH \<and> nxt = Some STAR then
              (let j = skip_block raw_text (i + 2)
               in scan raw_text (j + (if j + 1 < length raw_text then 2 else 0))
                    in_string escaped result)
            else scan raw_text (i + 1) in_string escaped (result @ [ch]))
      else result)"
  by pat_completeness auto
termination
proof (relation "measure (\<lambda>(raw_text, i, in_string, escaped, result). length raw_text - i)")
  fix raw_text :: pystr and i :: nat
  assume "i < length raw_text"
  moreover have "i + 2 \<le> skip_line raw_text (i + 2)" by (rule skip_line_ge)
  ultimately show "((raw_text, skip_line raw_text (i + 2), a, b, c), (raw_text, i, d, e, f))
      \<in> measure (\<lambda>(raw_text, i, in_string, escaped, result). length raw_text - i)" for a b c d e f
    by simp
next
  fix raw_text :: pystr and i :: nat and j :: nat
  assume "i < length raw_text" and j: "j = skip_block raw_text (i + 2)"
  moreover have "i + 2 \<le> skip_block raw_text (i + 2)" by (rule skip_block_ge)
  ultimately show "((raw_text, j + (if j + 1 < length raw_text then 2 else 0), a, b, c),
        (raw_text, i, d, e, f))
      \<in> measure (\<lambda>(raw_text, i, in_string, escaped, result). length raw_text - i)" for a b c d e f
    by simp
qed auto

declare scan.simps [simp del]

definition strip_json_comments :: "pystr \<Rightarrow> pystr" where
  "strip_json_comments raw_text = scan raw_text 0 False False []"

section \<open>The scanner on the remaining input\<close>

text \<open>
  The index \<open>i\<close> only ever moves forward, so the loop of \<open>strip_json_comments\<close> is a
  function of the input that is left, \<open>drop i raw_text\<close>. The functions of this section are
  that reading of the loops; \<open>scan_scanl\<close> proves it equal to the loop on indices, and
  the properties of the scanner are proved on it by induction on the input.

  \<open>skipb\<close> is the inner loop of a block comment: it stops at the closing \<open>*/\<close>, or with at
  most one character left when there is none. \<open>endb\<close> is the statement
  \<open>i += 2 if i + 1 < n else 0\<close> that follows that loop.
\<close>

fun skipb :: "pystr \<Rightarrow> pystr" where
  "skipb (c # d # r) = (if c = STAR \<and> d = SLASH then c # d # r else skipb (d # r))"
| "skipb xs = xs"

fun endb :: "pystr \<Rightarrow> pystr" where
  "endb (c # d # r) = r"
| "endb xs = xs"

abbreviation not_eol :: "codepoint \<Rightarrow> bool" where
  "not_eol c \<equiv> c \<noteq> LF \<and> c \<noteq> CR"

lemma length_skipb: "length (skipb xs) \<le> length xs"
  by (induction xs rule: skipb.induct) auto

lemma length_endb: "length (endb xs) \<le> length xs"
  by (induction xs rule: endb.induct) auto

function scanl :: "pystr \<Rightarrow> bool \<Rightarrow> bool \<Rightarrow> pystr" where
  "scanl [] ins esc = []"
| "scanl (c # cs) ins esc =
     (if ins then
        c # (if esc then scanl cs True False
             else if c = BACKSLASH then scanl cs True True
             else if c = QUOTE then scanl cs False False
             else scanl cs True False)
      else if c = QUOTE then c # scanl cs True esc
      else if c = SLASH \<and> cs \<noteq> [] \<and> hd cs = SLASH then
        scanl (dropWhile not_eol (tl cs)) ins esc
      else if c = SLASH \<and> cs \<noteq> [] \<and> hd cs = STAR then
        scanl (endb (skipb (tl cs))) ins esc
      else c # scanl cs ins esc)"
  by pat_completeness auto
termination
proof (relation "measure (\<lambda>(xs, ins, esc). length xs)", goal_cases)
  case (7 c cs ins esc)
  have "length (dropWhile not_eol (tl cs)) \<le> length (tl cs)" by (rule length_dropWhile_le)
  then show ?case by simp
next
  case (8 c cs ins esc)
  have "length (endb (skipb (tl cs))) \<le> length (tl cs)"
    using length_endb length_skipb le_trans by blast
  then show ?case by simp
qed auto

lemma drop_skip_line:
  "drop (skip_line raw i) raw = dropWhile not_eol (drop i raw)"
proof (induction raw i rule: skip_line.induct)
  case (1 raw i)
  show ?case
  proof (cases "i < length raw")
    case True
    then have d: "drop i raw = raw ! i # drop (i + 1) raw"
      by (simp add: Cons_nth_drop_Suc)
    show ?thesis
    proof (cases "not_eol (raw ! i)")
      case True
      with \<open>i < length raw\<close> 1 have "drop (skip_line raw (i + 1)) raw = dropWhile not_eol (drop (i + 1) raw)"
        by blast
      with True \<open>i < length raw\<close> d show ?thesis
        by (subst skip_line.simps) simp
    next
      case False
      with \<open>i < length raw\<close> d show ?thesis
        by (subst skip_line.simps) auto
    qed
  next
    case False
    then show ?thesis by (subst skip_line.simps) simp
  qed
qed

lemma skip_line_le: "i \<le> length raw \<Longrightarrow> skip_line raw i \<le> length raw"
proof (induction raw i rule: skip_line.induct)
  case (1 raw i)
  show ?case
  proof (cases "i < length raw \<and> not_eol (raw ! i)")
    case True
    with 1 have "skip_line raw (i + 1) \<le> length raw" by simp
    with True show ?thesis by (subst skip_line.simps) simp
  next
    case False
    with 1 show ?thesis by (subst skip_line.simps) auto
  qed
qed

lemma drop_skip_block:
  "drop (skip_block raw i) raw = skipb (drop i raw)"
proof (induction raw i rule: skip_block.induct)
  case (1 raw i)
  show ?case
  proof (cases "i + 1 < length raw")
    case True
    then have d: "drop i raw = raw ! i # raw ! (i + 1) # drop (i + 2) raw"
      by (metis Cons_nth_drop_Suc Suc_eq_plus1 add_2_eq_Suc' add_lessD1)
    from True have d1: "drop (i + 1) raw = raw ! (i + 1) # drop (i + 2) raw"
      by (metis Cons_nth_drop_Suc Suc_eq_plus1 add_2_eq_Suc')
    show ?thesis
    proof (cases "raw ! i = STAR \<and> raw ! (i + 1) = SLASH")
      case True
      with \<open>i + 1 < length raw\<close> d show ?thesis
        by (subst skip_block.simps) simp
    next
      case False
      with \<open>i + 1 < length raw\<close> 1 have "drop (skip_block raw (i + 1)) raw = skipb (drop (i + 1) raw)"
        by blast
      with False \<open>i + 1 < length raw\<close> d d1 show ?thesis
        by (subst skip_block.simps) auto
    qed
  next
    case False
    then have "length (drop i raw) \<le> 1" by simp
    then have "drop i raw = [] \<or> (\<exists>c. drop i raw = [c])"
      by (cases "drop i raw"; cases "tl (drop i raw)") auto
    with False show ?thesis by (subst skip_block.simps) auto
  qed
qed

lemma skip_block_le: "i \<le> length raw \<Longrightarrow> skip_block raw i \<le> length raw"
proof (induction raw i rule: skip_block.induct)
  case (1 raw i)
  show ?case
  proof (cases "i + 1 < length raw \<and> \<not> (raw ! i = STAR \<and> raw ! (i + 1) = SLASH)")
    case True
    with 1 have "skip_block raw (i + 1) \<le> length raw" by simp
    with True show ?thesis by (subst skip_block.simps) simp
  next
    case False
    with 1 show ?thesis by (subst skip_block.simps) auto
  qed
qed

declare scanl.simps [simp del]

lemma scan_scanl:
  "i \<le> length raw \<Longrightarrow> scan raw i ins esc res = res @ scanl (drop i raw) ins esc"
proof (induction raw i ins esc res rule: scan.induct)
  case (1 raw i ins esc res)
  show ?case
  proof (cases "i < length raw")
    case False
    with 1(9) show ?thesis by (subst scan.simps) (simp add: scanl.simps)
  next
    case lt: True
    then have d: "drop i raw = raw ! i # drop (i + 1) raw"
      by (simp add: Cons_nth_drop_Suc)
    have le1: "i + 1 \<le> length raw" using lt by simp
    show ?thesis
    proof (cases ins)
      case True
      with lt le1 1(1-4) d show ?thesis
        by (subst scan.simps) (simp add: scanl.simps(2))
    next
      case nins: False
      show ?thesis
      proof (cases "raw ! i = QUOTE")
        case True
        with nins lt le1 1(5) d show ?thesis
          by (subst scan.simps) (simp add: scanl.simps(2))
      next
        case nq: False
        show ?thesis
        proof (cases "i + 1 < length raw")
          case False
          then have "drop (i + 1) raw = []" by simp
          with False nq nins lt le1 1(8) d show ?thesis
            by (subst scan.simps) (simp add: scanl.simps(2))
        next
          case lt1: True
          then have d1: "drop (i + 1) raw = raw ! (i + 1) # drop (i + 2) raw"
            by (metis Cons_nth_drop_Suc Suc_eq_plus1 add_2_eq_Suc')
          have le2: "i + 2 \<le> length raw" using lt1 by simp
          consider (line) "raw ! i = SLASH" "raw ! (i + 1) = SLASH"
            | (block) "raw ! i = SLASH" "raw ! (i + 1) = STAR"
            | (other) "\<not> (raw ! i = SLASH \<and> (raw ! (i + 1) = SLASH \<or> raw ! (i + 1) = STAR))"
            by blast
          then show ?thesis
          proof cases
            case line
            have "skip_line raw (i + 2) \<le> length raw" using le2 by (rule skip_line_le)
            with line nq nins lt lt1 1(6) have
              "scan raw (skip_line raw (i + 2)) ins esc res =
                 res @ scanl (drop (skip_line raw (i + 2)) raw) ins esc"
              by simp
            with line nq nins lt lt1 d d1 show ?thesis
              by (subst scan.simps) (simp add: scanl.simps(2) drop_skip_line)
          next
            case block
            define j where "j = skip_block raw (i + 2)"
            have jle: "j \<le> length raw" unfolding j_def using le2 by (rule skip_block_le)
            define k where "k = j + (if j + 1 < length raw then 2 else 0)"
            have kle: "k \<le> length raw" using jle by (auto simp: k_def)
            have sj: "skipb (drop (i + 2) raw) = drop j raw"
              unfolding j_def by (rule drop_skip_block [symmetric])
            have dk: "drop k raw = endb (skipb (drop (i + 2) raw))"
            proof (cases "j + 1 < length raw")
              case True
              then have "drop j raw = raw ! j # raw ! (j + 1) # drop (j + 2) raw"
                by (metis Cons_nth_drop_Suc Suc_eq_plus1 add_2_eq_Suc' add_lessD1)
              with True show ?thesis
                unfolding sj by (simp add: k_def)
            next
              case False
              then have "length (drop j raw) \<le> 1" by simp
              then have "drop j raw = [] \<or> (\<exists>c. drop j raw = [c])"
                by (cases "drop j raw"; cases "tl (drop j raw)") auto
              with False show ?thesis
                unfolding sj by (auto simp: k_def)
            qed
            from block nq nins lt lt1 1(7) [OF _ refl refl _ _ _ _ refl] kle
            have "scan raw k ins esc res = res @ scanl (drop k raw) ins esc"
              by (simp add: k_def j_def)
            with block nq nins lt lt1 d d1 dk show ?thesis
              by (subst scan.simps) (simp add: scanl.simps(2) Let_def k_def j_def)
          next
            case other
            with nq nins lt lt1 le1 1(8) d d1 show ?thesis
              by (subst scan.simps) (auto simp add: scanl.simps(2))
          qed
        qed
      qed
    qed
  qed
qed

lemma suffix_skipb: "suffix (skipb xs) xs"
  by (induction xs rule: skipb.induct) (auto intro: suffix_ConsI)

lemma suffix_endb: "suffix (endb xs) xs"
  by (induction xs rule: endb.induct) (auto intro: suffix_ConsI)

lemma subseq_suffix: "subseq xs ys \<Longrightarrow> suffix ys zs \<Longrightarrow> subseq xs zs"
  by (auto simp: suffix_def intro: list_emb_append2)

lemma subseq_scanl: "subseq (scanl xs ins esc) xs"
proof (induction xs ins esc rule: scanl.induct)
  case (1 ins esc)
  show ?case by (simp add: scanl.simps)
next
  case (2 c cs ins esc)
  show ?case
  proof (cases ins)
    case True
    with 2(1-4) show ?thesis by (simp add: scanl.simps(2))
  next
    case nins: False
    show ?thesis
    proof (cases "c = QUOTE")
      case True
      with nins 2(5) show ?thesis by (simp add: scanl.simps(2))
    next
      case nq: False
      consider (line) "c = SLASH" "cs \<noteq> []" "hd cs = SLASH"
        | (block) "c = SLASH" "cs \<noteq> []" "hd cs = STAR"
        | (other) "\<not> (c = SLASH \<and> cs \<noteq> [] \<and> (hd cs = SLASH \<or> hd cs = STAR))"
        by blast
      then show ?thesis
      proof cases
        case line
        with nins nq 2(6) have "subseq (scanl (dropWhile not_eol (tl cs)) ins esc) (dropWhile not_eol (tl cs))"
          by simp
        moreover have "suffix (dropWhile not_eol (tl cs)) (c # cs)"
          by (meson suffix_ConsI suffix_dropWhile suffix_order.trans suffix_tl)
        ultimately have "subseq (scanl (dropWhile not_eol (tl cs)) ins esc) (c # cs)"
          by (rule subseq_suffix)
        with line nins nq show ?thesis by (simp add: scanl.simps(2))
      next
        case block
        with nins nq 2(7) have "subseq (scanl (endb (skipb (tl cs))) ins esc) (endb (skipb (tl cs)))"
          by simp
        moreover have "suffix (endb (skipb (tl cs))) (c # cs)"
          by (meson suffix_ConsI suffix_endb suffix_skipb suffix_order.trans suffix_tl)
        ultimately have "subseq (scanl (endb (skipb (tl cs))) ins esc) (c # cs)"
          by (rule subseq_suffix)
        with block nins nq show ?thesis by (simp add: scanl.simps(2))
      next
        case other
        with nins nq 2(8) show ?thesis by (auto simp add: scanl.simps(2))
      qed
    qed
  qed
qed

section \<open>The places of a text, after the specification\<close>

text \<open>
  Section 4.1 of the specification gives every character of the input a place: inside
  a double-quoted string (the quotes included), inside a comment, or in the rest of the
  text. A backslash inside a string escapes exactly the next character; a line comment
  runs up to, and not including, the next line feed or carriage return; a block comment
  runs through its closing \<open>*/\<close>, or to the end of the input when there is none.
\<close>

datatype region = Code | Str | Comment

datatype mode = Normal | InString | InStringEscaped | LineComment | BlockComment

fun regions :: "mode \<Rightarrow> pystr \<Rightarrow> region list" where
  "regions m [] = []"
| "regions Normal (c # cs) =
     (if c = QUOTE then Str # regions InString cs
      else if c = SLASH \<and> cs \<noteq> [] \<and> hd cs = SLASH then
        Comment # Comment # regions LineComment (tl cs)
      else if c = SLASH \<and> cs \<noteq> [] \<and> hd cs = STAR then
        Comment # Comment # regions BlockComment (tl cs)
      else Code # regions Normal cs)"
| "regions InString (c # cs) =
     Str # regions (if c = BACKSLASH then InStringEscaped
                    else if c = QUOTE then Normal else InString) cs"
| "regions InStringEscaped (c # cs) = Str # regions InString cs"
| "regions LineComment (c # cs) =
     (if c = LF \<or> c = CR then Code # regions Normal cs
      else Comment # regions LineComment cs)"
| "regions BlockComment (c # cs) =
     (if c = STAR \<and> cs \<noteq> [] \<and> hd cs = SLASH then Comment # Comment # regions Normal (tl cs)
      else Comment # regions BlockComment cs)"

text \<open>The characters of \<open>xs\<close> at the positions where the mask \<open>keep\<close> is true, in order.\<close>

definition kept :: "'a list \<Rightarrow> bool list \<Rightarrow> 'a list" where
  "kept xs keep = map fst (filter snd (zip xs keep))"

lemma length_regions: "length (regions m xs) = length xs"
  by (induction m xs rule: regions.induct) auto


text \<open>The state of the specification's scanner for the loop variables of the code.\<close>

fun mode_of :: "bool \<Rightarrow> bool \<Rightarrow> mode" where
  "mode_of True True = InStringEscaped"
| "mode_of True False = InString"
| "mode_of False _ = Normal"

abbreviation keeps :: "region \<Rightarrow> bool \<Rightarrow> bool" where
  "keeps r k \<equiv> r \<noteq> Comment \<longrightarrow> k"

lemma kept_Cons_True: "kept (c # cs) (True # keep) = c # kept cs keep"
  by (simp add: kept_def)

lemma kept_Nil: "kept [] keep = []"
  by (simp add: kept_def)

lemma kept_replicate_True: "kept xs (replicate (length xs) True) = xs"
  by (induction xs) (simp_all add: kept_def)

lemma kept_all_True:
  assumes "length keep = length xs" and "\<forall>k \<in> set keep. k"
  shows "kept xs keep = xs"
proof -
  from assms have "keep = replicate (length xs) True"
    by (intro replicate_eqI) auto
  then show ?thesis by (simp add: kept_replicate_True)
qed

lemma kept_suffix:
  assumes "suffix rest xs" and "length keep = length rest"
  shows "kept xs (replicate (length xs - length rest) False @ keep) = kept rest keep"
proof -
  from assms(1) obtain pre where xs: "xs = pre @ rest" by (auto simp: suffix_def)
  have "filter snd (zip pre (replicate (length pre) False)) = []"
    by (auto simp: filter_empty_conv dest: set_zip_rightD)
  then show ?thesis
    by (simp add: kept_def xs)
qed

lemma keeps_skipped:
  assumes "list_all2 keeps rs keep"
  shows "list_all2 keeps (replicate n Comment @ rs) (replicate n False @ keep)"
proof -
  have "list_all2 keeps (replicate n Comment) (replicate n False)"
    by (simp add: list_all2_conv_all_nth)
  with assms show ?thesis by (rule list_all2_appendI [rotated])
qed

lemma keeps_all_Comment: "length keep = n \<Longrightarrow> list_all2 keeps (replicate n Comment) keep"
  by (simp add: list_all2_conv_all_nth)

lemma regions_LineComment:
  "regions LineComment r =
     replicate (length (takeWhile not_eol r)) Comment @ regions Normal (dropWhile not_eol r)"
proof (induction r)
  case Nil
  show ?case by simp
next
  case (Cons c r)
  show ?case
  proof (cases "not_eol c")
    case True
    with Cons show ?thesis by simp
  next
    case False
    then have "regions LineComment (c # r) = Code # regions Normal r" by auto
    moreover from False have "regions Normal (c # r) = Code # regions Normal r" by auto
    ultimately show ?thesis using False by auto
  qed
qed

lemma regions_BlockComment:
  "regions BlockComment r =
     replicate (length r - length (endb (skipb r))) Comment @
     (if 2 \<le> length (skipb r) then regions Normal (endb (skipb r))
      else replicate (length (endb (skipb r))) Comment)"
proof (induction r rule: skipb.induct)
  case (1 c d r)
  show ?case
  proof (cases "c = STAR \<and> d = SLASH")
    case True
    then show ?thesis by (simp add: numeral_2_eq_2)
  next
    case False
    define E where "E = endb (skipb (d # r))"
    define T where "T = (if 2 \<le> length (skipb (d # r)) then regions Normal E
      else replicate (length E) Comment)"
    from 1 [OF False] have IH:
      "regions BlockComment (d # r) = replicate (length (d # r) - length E) Comment @ T"
      unfolding E_def T_def .
    have "length E \<le> length (d # r)"
      unfolding E_def using length_endb length_skipb le_trans by blast
    then have len: "length (c # d # r) - length E = Suc (length (d # r) - length E)"
      by simp
    have r1: "regions BlockComment (c # d # r) = Comment # regions BlockComment (d # r)"
      using False by auto
    have s1: "skipb (c # d # r) = skipb (d # r)"
      using False by auto
    have "regions BlockComment (c # d # r) =
        replicate (length (c # d # r) - length E) Comment @ T"
      unfolding r1 IH len by simp
    then show ?thesis unfolding s1 E_def T_def .
  qed
qed simp_all

lemma scanl_keeps:
  "ins \<or> \<not> esc \<Longrightarrow>
   \<exists>keep. length keep = length xs \<and> scanl xs ins esc = kept xs keep \<and>
     list_all2 keeps (regions (mode_of ins esc) xs) keep"
proof (induction xs ins esc rule: scanl.induct)
  case (1 ins esc)
  show ?case by (simp add: scanl.simps kept_Nil)
next
  case (2 c cs ins esc)
  let ?goal = "\<lambda>keep. length keep = length (c # cs) \<and> scanl (c # cs) ins esc = kept (c # cs) keep \<and>
     list_all2 keeps (regions (mode_of ins esc) (c # cs)) keep"
  show ?case
  proof (cases ins)
    case True
    define ins' where "ins' = (esc \<or> c \<noteq> QUOTE)"
    define esc' where "esc' = (\<not> esc \<and> c = BACKSLASH)"
    have step: "scanl (c # cs) ins esc = c # scanl cs ins' esc'"
      using True by (auto simp: scanl.simps(2) ins'_def esc'_def)
    have reg: "regions (mode_of ins esc) (c # cs) = Str # regions (mode_of ins' esc') cs"
      using True by (cases esc) (auto simp: ins'_def esc'_def)
    have "\<exists>keep. length keep = length cs \<and> scanl cs ins' esc' = kept cs keep \<and>
       list_all2 keeps (regions (mode_of ins' esc') cs) keep"
      using True 2(1-4)
      by (cases esc; cases "c = BACKSLASH"; cases "c = QUOTE") (auto simp: ins'_def esc'_def)
    then obtain keep where "length keep = length cs" "scanl cs ins' esc' = kept cs keep"
      "list_all2 keeps (regions (mode_of ins' esc') cs) keep" by blast
    then have "?goal (True # keep)"
      unfolding step reg by (simp add: kept_Cons_True)
    then show ?thesis by blast
  next
    case nins: False
    with 2(9) have nesc: "\<not> esc" by simp
    show ?thesis
    proof (cases "c = QUOTE")
      case True
      with nins nesc 2(5) obtain keep where "length keep = length cs"
        "scanl cs True esc = kept cs keep"
        "list_all2 keeps (regions (mode_of True esc) cs) keep" by auto
      with True nins nesc have "?goal (True # keep)"
        by (simp add: scanl.simps(2) kept_Cons_True)
      then show ?thesis by blast
    next
      case nq: False
      consider (line) "c = SLASH" "cs \<noteq> []" "hd cs = SLASH"
        | (block) "c = SLASH" "cs \<noteq> []" "hd cs = STAR"
        | (other) "\<not> (c = SLASH \<and> cs \<noteq> [] \<and> (hd cs = SLASH \<or> hd cs = STAR))"
        by blast
      then show ?thesis
      proof cases
        case line
        define rest where "rest = dropWhile not_eol (tl cs)"
        from line nins nq 2(6) 2(9) obtain keep where k: "length keep = length rest"
          "scanl rest ins esc = kept rest keep"
          "list_all2 keeps (regions (mode_of ins esc) rest) keep"
          unfolding rest_def by auto
        have suf: "suffix rest (c # cs)"
          unfolding rest_def by (meson suffix_ConsI suffix_dropWhile suffix_order.trans suffix_tl)
        define n where "n = length (c # cs) - length rest"
        have len: "length (c # cs) = n + length rest"
          unfolding n_def using suffix_length_le [OF suf] by simp
        have n2: "n = Suc (Suc (length (takeWhile not_eol (tl cs))))"
        proof -
          have "length (tl cs) = length (takeWhile not_eol (tl cs)) + length rest"
            unfolding rest_def by (metis length_append takeWhile_dropWhile_id)
          with line len show ?thesis by (cases cs) auto
        qed
        have reg: "regions (mode_of ins esc) (c # cs) =
            replicate n Comment @ regions (mode_of ins esc) rest"
          using line nins nq by (simp add: regions_LineComment rest_def n2)
        have "?goal (replicate n False @ keep)"
          unfolding reg
          using line nins nq k len kept_suffix [OF suf k(1)] keeps_skipped [OF k(3)]
          by (simp add: scanl.simps(2) rest_def [symmetric] n_def [symmetric])
        then show ?thesis by blast
      next
        case block
        define rest where "rest = endb (skipb (tl cs))"
        from block nins nq 2(7) 2(9) obtain keep where k: "length keep = length rest"
          "scanl rest ins esc = kept rest keep"
          "list_all2 keeps (regions (mode_of ins esc) rest) keep"
          unfolding rest_def by auto
        have suf: "suffix rest (c # cs)"
          unfolding rest_def
          by (meson suffix_ConsI suffix_endb suffix_skipb suffix_order.trans suffix_tl)
        define n where "n = length (c # cs) - length rest"
        have len: "length (c # cs) = n + length rest"
          unfolding n_def using suffix_length_le [OF suf] by simp
        have "length rest \<le> length (tl cs)"
          unfolding rest_def using length_endb length_skipb le_trans by blast
        then have n2: "n = Suc (Suc (length (tl cs) - length rest))"
          using block len by (cases cs) auto
        have reg: "regions (mode_of ins esc) (c # cs) =
            replicate n Comment @
            (if 2 \<le> length (skipb (tl cs)) then regions Normal rest
             else replicate (length rest) Comment)"
          using block nins nq by (simp add: regions_BlockComment rest_def [symmetric] n2)
        have "list_all2 keeps (if 2 \<le> length (skipb (tl cs)) then regions Normal rest
             else replicate (length rest) Comment) keep"
          using k(1,3) nins by (simp add: keeps_all_Comment)
        then have "list_all2 keeps (regions (mode_of ins esc) (c # cs)) (replicate n False @ keep)"
          unfolding reg by (rule keeps_skipped)
        then have "?goal (replicate n False @ keep)"
          using block nins nq k len kept_suffix [OF suf k(1)]
          by (simp add: scanl.simps(2) rest_def [symmetric] n_def [symmetric])
        then show ?thesis by blast
      next
        case other
        with nins nq 2(8) 2(9) obtain keep where "length keep = length cs"
          "scanl cs ins esc = kept cs keep"
          "list_all2 keeps (regions (mode_of ins esc) cs) keep" by auto
        with other nins nq have "?goal (True # keep)"
          by (auto simp add: scanl.simps(2) kept_Cons_True)
        then show ?thesis by blast
      qed
    qed
  qed
qed

section \<open>Properties of \<open>normalize\<close>\<close>









section \<open>\<open>keyword_match\<close>\<close>

text \<open>
  \<open>sub in s\<close> for two \<open>str\<close>: \<open>sub\<close> occurs in \<open>s\<close> at some position, as a run of adjacent
  characters.
\<close>

fun str_contains :: "pystr \<Rightarrow> pystr \<Rightarrow> bool" where
  "str_contains sub [] = (sub = [])"
| "str_contains sub (c # cs) = (prefix sub (c # cs) \<or> str_contains sub cs)"

text \<open>
  \<^verbatim>\<open>
  def keyword_match(normalized_text: str, keyword: str) -> bool:
      normalized_keyword = normalize(keyword)
      if not normalized_keyword:
          return False
      if len(normalized_keyword) == 1:
          return normalized_text == normalized_keyword
      return normalized_keyword in normalized_text
  \<close>
  The keyword comes from the rules file, so it is any JSON value.
\<close>

definition keyword_match :: "pystr \<Rightarrow> json \<Rightarrow> bool" where
  "keyword_match normalized_text keyword =
     (let normalized_keyword = normalize_text keyword
      in if normalized_keyword = [] then False
         else if length normalized_keyword = 1 then normalized_text = normalized_keyword
         else str_contains normalized_keyword normalized_text)"


section \<open>\<open>should_update\<close>\<close>

text \<open>
  \<open>pd.isna\<close> on a scalar: true for \<open>None\<close>, \<open>pd.NA\<close> and the float \<open>nan\<close>.
  \<^verbatim>\<open>
  def should_update(existing_status: str, overwrite: bool) -> bool:
      if overwrite:
          return True
      if pd.isna(existing_status):
          return True
      if isinstance(existing_status, str) and existing_status.strip() == "":
          return True
      return False
  \<close>
\<close>

fun pd_isna :: "cell \<Rightarrow> bool" where
  "pd_isna CNone = True"
| "pd_isna CNA = True"
| "pd_isna (CFloat NaN) = True"
| "pd_isna _ = False"

definition should_update :: "cell \<Rightarrow> bool \<Rightarrow> bool" where
  "should_update existing_status overwrite =
     (if overwrite then True
      else if pd_isna existing_status then True
      else if (case existing_status of CStr s \<Rightarrow> strip s = [] | _ \<Rightarrow> False) then True
      else False)"

lemma strip_empty: "strip s = [] \<longleftrightarrow> list_all isspace s"
proof
  assume "strip s = []"
  then have "dropWhile isspace (rev (dropWhile isspace s)) = []" by (simp add: strip_def)
  then have "\<forall>c \<in> set (dropWhile isspace s). isspace c" by (simp add: dropWhile_eq_Nil_conv)
  then have "dropWhile isspace s = []"
    by (metis hd_dropWhile hd_in_set)
  then show "list_all isspace s" by (simp add: dropWhile_eq_Nil_conv list_all_iff)
next
  assume "list_all isspace s"
  then have d: "dropWhile isspace s = []" by (meson dropWhile_eq_Nil_conv list_all_iff)
  show "strip s = []" unfolding strip_def d by simp
qed

section \<open>Python operations on the parsed rules\<close>

text \<open>\<open>xs[i]\<close> on a list or a \<open>str\<close>: a negative index counts from the end.\<close>

definition list_index :: "'a list \<Rightarrow> int \<Rightarrow> error + 'a" where
  "list_index xs i =
     (let n = int (length xs); j = (if i < 0 then i + n else i)
      in if 0 \<le> j \<and> j < n then Inr (xs ! nat j) else Inl IndexError)"

text \<open>
  \<open>obj[key]\<close>. The keys of a \<open>dict\<close> made by \<open>json.loads\<close> are all \<open>str\<close>, so a key that is
  \<open>None\<close> or a number is never found; a list or a \<open>dict\<close> as key is unhashable. A list and
  a \<open>str\<close> take an \<open>int\<close> (a \<open>bool\<close> is one); the other values have no subscript.
\<close>

definition getitem :: "json \<Rightarrow> json \<Rightarrow> error + json" where
  "getitem obj key =
     (case obj of
        JObj d \<Rightarrow>
          (case key of
             JStr k \<Rightarrow> (case map_of d k of Some v \<Rightarrow> Inr v | None \<Rightarrow> Inl KeyError)
           | JArr ks \<Rightarrow> Inl TypeError
           | JObj ks \<Rightarrow> Inl TypeError
           | _ \<Rightarrow> Inl KeyError)
      | JArr xs \<Rightarrow>
          (case key of
             JInt i \<Rightarrow> list_index xs i
           | JBool b \<Rightarrow> list_index xs (if b then 1 else 0)
           | _ \<Rightarrow> Inl TypeError)
      | JStr s \<Rightarrow>
          (case key of
             JInt i \<Rightarrow> map_sum id (\<lambda>c. JStr [c]) (list_index s i)
           | JBool b \<Rightarrow> map_sum id (\<lambda>c. JStr [c]) (list_index s (if b then 1 else 0))
           | _ \<Rightarrow> Inl TypeError)
      | _ \<Rightarrow> Inl TypeError)"

text \<open>\<open>obj.get(key, default)\<close>, \<open>obj.items()\<close> and \<open>for x in obj\<close>.\<close>

fun py_get :: "json \<Rightarrow> pystr \<Rightarrow> json \<Rightarrow> error + json" where
  "py_get (JObj d) key dflt = Inr (case map_of d key of Some v \<Rightarrow> v | None \<Rightarrow> dflt)"
| "py_get obj key dflt = Inl AttributeError"

fun py_items :: "json \<Rightarrow> error + (pystr \<times> json) list" where
  "py_items (JObj d) = Inr d"
| "py_items obj = Inl AttributeError"

fun py_iter :: "json \<Rightarrow> error + json list" where
  "py_iter (JArr xs) = Inr xs"
| "py_iter (JObj d) = Inr (map (\<lambda>(k, v). JStr k) d)"
| "py_iter (JStr s) = Inr (map (\<lambda>c. JStr [c]) s)"
| "py_iter obj = Inl TypeError"

text \<open>
  \<open>{keyword}\<close> in an f-string. Only a \<open>str\<close> reaches it, since \<open>keyword_match\<close> is false
  for every other value (\<open>keyword_match_str\<close> below); the text of the other values is not
  modelled.
\<close>

fun format_keyword :: "json \<Rightarrow> pystr" where
  "format_keyword (JStr s) = s"
| "format_keyword v = []"

section \<open>\<open>classify_material\<close>\<close>

text \<open>The literals of the function; the Korean ones are written by code point.\<close>

definition DEFAULT_OVERRIDE_REASON :: pystr where
  "DEFAULT_OVERRIDE_REASON =
     [0xC815, 0xD655, 0x20, 0xC77C, 0xCE58, 0x20, 0xC624, 0xBC84, 0xB77C, 0xC774, 0xB4DC]"

definition HARAM_REASON :: pystr where
  "HARAM_REASON =
     [0xD558, 0xB78C, 0x20, 0xD0A4, 0xC6CC, 0xB4DC, 0x20, 0xD3EC, 0xD568, 0x3A, 0x20]"

definition REVIEW_REASON :: pystr where
  "REVIEW_REASON =
     [0xCD94, 0xAC00, 0x20, 0xAC80, 0xD1A0, 0x20, 0xD544, 0xC694, 0x20, 0xD0A4, 0xC6CC, 0xB4DC,
      0x20, 0xD3EC, 0xD568, 0x3A, 0x20]"

definition HALAL_REASON :: pystr where
  "HALAL_REASON =
     [0xD560, 0xB784, 0x20, 0xD0A4, 0xC6CC, 0xB4DC, 0x20, 0xD3EC, 0xD568, 0x3A, 0x20]"

text \<open>
  The body of the loop over \<open>overrides.items()\<close>, once the key matches:
  \<^verbatim>\<open>
  status_key = value["status"]
  reason = value.get("reason", "...")
  return status_labels[status_key], reason
  \<close>
\<close>

definition override_result :: "json \<Rightarrow> json \<Rightarrow> error + json \<times> json" where
  "override_result status_labels val =
     (case getitem val (JStr (ascii ''status'')) of
        Inl e \<Rightarrow> Inl e
      | Inr status_key \<Rightarrow>
          (case py_get val (ascii ''reason'') (JStr DEFAULT_OVERRIDE_REASON) of
             Inl e \<Rightarrow> Inl e
           | Inr reason \<Rightarrow>
               (case getitem status_labels status_key of
                  Inl e \<Rightarrow> Inl e
                | Inr label \<Rightarrow> Inr (label, reason))))"

text \<open>
  The loops return \<open>None\<close> when they end without a \<open>return\<close>, and otherwise what the
  function returns or raises.
\<close>

fun override_loop :: "json \<Rightarrow> pystr \<Rightarrow> (pystr \<times> json) list \<Rightarrow> (error + json \<times> json) option" where
  "override_loop status_labels normalized [] = None"
| "override_loop status_labels normalized ((key, val) # rest) =
     (if normalize_text (JStr key) = normalized then Some (override_result status_labels val)
      else override_loop status_labels normalized rest)"

text \<open>
  One loop over a tier of keywords:
  \<^verbatim>\<open>
  for keyword in rules.get("haram_contains", []):
      if keyword_match(normalized, keyword):
          return status_labels["haram"], f"... {keyword}"
  \<close>
\<close>

fun tier_loop :: "json \<Rightarrow> pystr \<Rightarrow> pystr \<Rightarrow> pystr \<Rightarrow> json list \<Rightarrow> (error + json \<times> json) option" where
  "tier_loop status_labels status reason normalized [] = None"
| "tier_loop status_labels status reason normalized (keyword # rest) =
     (if keyword_match normalized keyword then
        Some (case getitem status_labels (JStr status) of
                Inl e \<Rightarrow> Inl e
              | Inr label \<Rightarrow> Inr (label, JStr (reason @ format_keyword keyword)))
      else tier_loop status_labels status reason normalized rest)"

definition tier :: "json \<Rightarrow> json \<Rightarrow> pystr \<Rightarrow> pystr \<Rightarrow> pystr \<Rightarrow> pystr \<Rightarrow> (error + json \<times> json) option" where
  "tier status_labels rules name status reason normalized =
     (case py_get rules name (JArr []) of
        Inl e \<Rightarrow> Some (Inl e)
      | Inr keywords \<Rightarrow>
          (case py_iter keywords of
             Inl e \<Rightarrow> Some (Inl e)
           | Inr ks \<Rightarrow> tier_loop status_labels status reason normalized ks))"

definition classify_material :: "cell \<Rightarrow> json \<Rightarrow> error + json \<times> json" where
  "classify_material material_name ruleset =
     (case getitem ruleset (JStr (ascii ''status_labels'')) of
        Inl e \<Rightarrow> Inl e
      | Inr status_labels \<Rightarrow>
     (case getitem ruleset (JStr (ascii ''rules'')) of
        Inl e \<Rightarrow> Inl e
      | Inr rules \<Rightarrow>
     (case py_get ruleset (ascii ''overrides'') (JObj []) of
        Inl e \<Rightarrow> Inl e
      | Inr overrides_all \<Rightarrow>
     (case py_get overrides_all (ascii ''exact'') (JObj []) of
        Inl e \<Rightarrow> Inl e
      | Inr overrides \<Rightarrow>
     (let raw = (case material_name of CStr s \<Rightarrow> s | _ \<Rightarrow> []);
          normalized = normalize_text (JStr raw)
      in case py_items overrides of
           Inl e \<Rightarrow> Inl e
         | Inr items \<Rightarrow>
     (case override_loop status_labels normalized items of
        Some r \<Rightarrow> r
      | None \<Rightarrow>
     (case tier status_labels rules (ascii ''haram_contains'') (ascii ''haram'') HARAM_REASON
             normalized of
        Some r \<Rightarrow> r
      | None \<Rightarrow>
     (case tier status_labels rules (ascii ''review_contains'') (ascii ''review'') REVIEW_REASON
             normalized of
        Some r \<Rightarrow> r
      | None \<Rightarrow>
     (case tier status_labels rules (ascii ''halal_contains'') (ascii ''halal'') HALAL_REASON
             normalized of
        Some r \<Rightarrow> r
      | None \<Rightarrow> Inr (JNull, JNull))))))))))"

section \<open>\<open>load_rules\<close>\<close>


section \<open>The ruleset and the classification, after the specification\<close>

text \<open>The value under a key of an object; nothing for a missing key or another value.\<close>

definition field :: "json \<Rightarrow> pystr \<Rightarrow> json option" where
  "field obj key = (case obj of JObj d \<Rightarrow> map_of d key | _ \<Rightarrow> None)"

fun is_str :: "json \<Rightarrow> bool" where
  "is_str (JStr s) = True"
| "is_str v = False"

text \<open>
  Section 3 of the specification: an override record is \<open>{status, reason?}\<close>, its status
  a key of \<open>status_labels\<close> and its reason, when given, a string.
\<close>

definition valid_override :: "(pystr \<times> json) list \<Rightarrow> pystr \<times> json \<Rightarrow> bool" where
  "valid_override labels entry =
     ((case field (snd entry) (ascii ''status'') of
         Some (JStr status) \<Rightarrow> map_of labels status \<noteq> None
       | _ \<Rightarrow> False) \<and>
      (case field (snd entry) (ascii ''reason'') of
         None \<Rightarrow> True
       | Some reason \<Rightarrow> is_str reason))"

text \<open>A tier of \<open>rules\<close> is a sequence of keyword strings; a tier left out is empty.\<close>

definition valid_tier :: "json \<Rightarrow> pystr \<Rightarrow> bool" where
  "valid_tier rules name =
     (case field rules name of
        None \<Rightarrow> True
      | Some (JArr keywords) \<Rightarrow> list_all is_str keywords
      | Some v \<Rightarrow> False)"

text \<open>\<open>overrides.exact\<close> is a mapping to override records; it is empty when absent.\<close>

definition valid_overrides :: "(pystr \<times> json) list \<Rightarrow> json \<Rightarrow> bool" where
  "valid_overrides labels ruleset =
     (case field ruleset (ascii ''overrides'') of
        None \<Rightarrow> True
      | Some (JObj ov) \<Rightarrow>
          (case map_of ov (ascii ''exact'') of
             None \<Rightarrow> True
           | Some (JObj exact) \<Rightarrow> list_all (valid_override labels) exact
           | Some v \<Rightarrow> False)
      | Some v \<Rightarrow> False)"

text \<open>
  A valid ruleset: \<open>status_labels\<close> maps the status keys, \<open>haram\<close>, \<open>review\<close> and \<open>halal\<close>
  among them, to display strings; \<open>rules\<close> is a mapping whose tiers are valid; the
  overrides are valid.
\<close>

definition valid_ruleset :: "json \<Rightarrow> bool" where
  "valid_ruleset ruleset =
     (case field ruleset (ascii ''status_labels'') of
        Some (JObj labels) \<Rightarrow>
          list_all (\<lambda>entry. is_str (snd entry)) labels \<and>
          list_all (\<lambda>status. map_of labels status \<noteq> None)
            [ascii ''haram'', ascii ''review'', ascii ''halal''] \<and>
          (case field ruleset (ascii ''rules'') of
             Some (JObj rules) \<Rightarrow>
               list_all (valid_tier (JObj rules))
                 [ascii ''haram_contains'', ascii ''review_contains'', ascii ''halal_contains''] \<and>
               valid_overrides labels ruleset
           | _ \<Rightarrow> False)
      | _ \<Rightarrow> False)"

text \<open>The parts of a ruleset that section 4.4 reads.\<close>

definition spec_label :: "json \<Rightarrow> pystr \<Rightarrow> json" where
  "spec_label ruleset status =
     (case field ruleset (ascii ''status_labels'') of
        Some labels \<Rightarrow> (case field labels status of Some label \<Rightarrow> label | None \<Rightarrow> JNull)
      | None \<Rightarrow> JNull)"

definition spec_tier :: "json \<Rightarrow> pystr \<Rightarrow> json list" where
  "spec_tier ruleset name =
     (case field ruleset (ascii ''rules'') of
        Some rules \<Rightarrow> (case field rules name of Some (JArr keywords) \<Rightarrow> keywords | _ \<Rightarrow> [])
      | None \<Rightarrow> [])"

definition spec_overrides :: "json \<Rightarrow> (pystr \<times> json) list" where
  "spec_overrides ruleset =
     (case field ruleset (ascii ''overrides'') of
        Some ov \<Rightarrow> (case field ov (ascii ''exact'') of Some (JObj exact) \<Rightarrow> exact | _ \<Rightarrow> [])
      | None \<Rightarrow> [])"

definition spec_status :: "json \<Rightarrow> pystr" where
  "spec_status record = (case field record (ascii ''status'') of Some (JStr s) \<Rightarrow> s | _ \<Rightarrow> [])"

definition spec_reason :: "json \<Rightarrow> json" where
  "spec_reason record =
     (case field record (ascii ''reason'') of
        Some reason \<Rightarrow> reason
      | None \<Rightarrow> JStr DEFAULT_OVERRIDE_REASON)"

text \<open>
  Section 4.4, in its order: the first override, in the order of definition, whose
  normalized key equals the normalized name; then the first matching keyword of the
  haram tier, of the review tier, of the halal tier; then \<open>(absent, absent)\<close>.
\<close>

definition classify_spec :: "cell \<Rightarrow> json \<Rightarrow> json \<times> json" where
  "classify_spec material_name ruleset =
     (let name = normalize_text (JStr (case material_name of CStr s \<Rightarrow> s | _ \<Rightarrow> []))
      in case find (\<lambda>entry. normalize_text (JStr (fst entry)) = name) (spec_overrides ruleset) of
           Some entry \<Rightarrow>
             (spec_label ruleset (spec_status (snd entry)), spec_reason (snd entry))
         | None \<Rightarrow>
      (case find (keyword_match name) (spec_tier ruleset (ascii ''haram_contains'')) of
         Some keyword \<Rightarrow>
           (spec_label ruleset (ascii ''haram''), JStr (HARAM_REASON @ format_keyword keyword))
       | None \<Rightarrow>
      (case find (keyword_match name) (spec_tier ruleset (ascii ''review_contains'')) of
         Some keyword \<Rightarrow>
           (spec_label ruleset (ascii ''review''), JStr (REVIEW_REASON @ format_keyword keyword))
       | None \<Rightarrow>
      (case find (keyword_match name) (spec_tier ruleset (ascii ''halal_contains'')) of
         Some keyword \<Rightarrow>
           (spec_label ruleset (ascii ''halal''), JStr (HALAL_REASON @ format_keyword keyword))
       | None \<Rightarrow> (JNull, JNull)))))"

lemma keyword_match_str: "keyword_match name keyword \<Longrightarrow> \<exists>s. keyword = JStr s"
  by (cases keyword) (simp_all add: keyword_match_def)

lemma override_loop_find:
  "override_loop status_labels name items =
     map_option (\<lambda>entry. override_result status_labels (snd entry))
       (find (\<lambda>entry. normalize_text (JStr (fst entry)) = name) items)"
  by (induction items) (auto simp del: normalize_text.simps)

lemma tier_loop_find:
  "tier_loop status_labels status reason name ks =
     map_option (\<lambda>keyword. case getitem status_labels (JStr status) of
                    Inl e \<Rightarrow> Inl e
                  | Inr label \<Rightarrow> Inr (label, JStr (reason @ format_keyword keyword)))
       (find (keyword_match name) ks)"
  by (induction ks) auto

lemma getitem_JObj_JStr:
  "getitem (JObj d) (JStr k) = (case map_of d k of Some v \<Rightarrow> Inr v | None \<Rightarrow> Inl KeyError)"
  by (simp add: getitem_def)

lemma valid_rulesetD:
  assumes "valid_ruleset rs"
  obtains doc labels rules where
    "rs = JObj doc"
    "map_of doc (ascii ''status_labels'') = Some (JObj labels)"
    "map_of doc (ascii ''rules'') = Some (JObj rules)"
    "list_all (\<lambda>entry. is_str (snd entry)) labels"
    "map_of labels (ascii ''haram'') \<noteq> None"
    "map_of labels (ascii ''review'') \<noteq> None"
    "map_of labels (ascii ''halal'') \<noteq> None"
    "valid_tier (JObj rules) (ascii ''haram_contains'')"
    "valid_tier (JObj rules) (ascii ''review_contains'')"
    "valid_tier (JObj rules) (ascii ''halal_contains'')"
    "valid_overrides labels rs"
proof -
  from assms obtain l where l: "field rs (ascii ''status_labels'') = Some l"
    by (auto simp: valid_ruleset_def split: option.splits)
  with assms obtain labels where l2: "l = JObj labels"
    by (cases l) (auto simp: valid_ruleset_def)
  from assms l l2 obtain r where r: "field rs (ascii ''rules'') = Some r"
    by (auto simp: valid_ruleset_def split: option.splits)
  with assms l l2 obtain rules where r2: "r = JObj rules"
    by (cases r) (auto simp: valid_ruleset_def)
  from l obtain doc where doc: "rs = JObj doc"
    by (cases rs) (auto simp: field_def)
  from assms l l2 r r2 doc show ?thesis
    by (intro that [of doc labels rules]) (auto simp: valid_ruleset_def field_def)
qed

lemma map_of_is_str:
  assumes "list_all (\<lambda>entry. is_str (snd entry)) labels" and "map_of labels k = Some v"
  shows "is_str v"
proof -
  from assms(2) have "(k, v) \<in> set labels" by (rule map_of_SomeD)
  with assms(1) show ?thesis by (auto simp: list_all_iff)
qed

lemma tier_valid:
  assumes "valid_tier (JObj rules) name"
    and "map_of labels status = Some label"
    and "rs = JObj doc"
    and "map_of doc (ascii ''rules'') = Some (JObj rules)"
    and "map_of doc (ascii ''status_labels'') = Some (JObj labels)"
  shows "tier (JObj labels) (JObj rules) name status reason n =
     map_option (\<lambda>keyword. Inr (spec_label rs status, JStr (reason @ format_keyword keyword)))
       (find (keyword_match n) (spec_tier rs name))"
proof -
  have lab: "spec_label rs status = label"
    using assms(2,3,5) by (simp add: spec_label_def field_def)
  have get: "getitem (JObj labels) (JStr status) = Inr label"
    using assms(2) by (simp add: getitem_JObj_JStr)
  show ?thesis
  proof (cases "map_of rules name")
    case None
    with assms(3,4) have "spec_tier rs name = []" by (simp add: spec_tier_def field_def)
    with None show ?thesis by (simp add: tier_def)
  next
    case (Some v)
    with assms(1) obtain ks where v: "v = JArr ks"
      by (cases v) (auto simp: valid_tier_def field_def)
    with Some assms(3,4) have "spec_tier rs name = ks" by (simp add: spec_tier_def field_def)
    with Some v get lab show ?thesis by (simp add: tier_def tier_loop_find)
  qed
qed

lemma overrides_valid:
  assumes "valid_overrides labels rs" and "rs = JObj doc"
  obtains ov where
    "py_get rs (ascii ''overrides'') (JObj []) = Inr ov"
    "py_get ov (ascii ''exact'') (JObj []) = Inr (JObj (spec_overrides rs))"
    "list_all (valid_override labels) (spec_overrides rs)"
proof (cases "map_of doc (ascii ''overrides'')")
  case None
  with assms(2) have "spec_overrides rs = []" by (simp add: spec_overrides_def field_def)
  with None assms(2) show ?thesis by (intro that [of "JObj []"]) simp_all
next
  case (Some v)
  with assms obtain ov where v: "v = JObj ov"
    by (cases v) (auto simp: valid_overrides_def field_def)
  show ?thesis
  proof (cases "map_of ov (ascii ''exact'')")
    case None
    with Some v assms(2) have "spec_overrides rs = []" by (simp add: spec_overrides_def field_def)
    with None Some v assms(2) show ?thesis by (intro that [of "JObj ov"]) simp_all
  next
    case ex: (Some e)
    with Some v assms obtain exact where e: "e = JObj exact"
      by (cases e) (auto simp: valid_overrides_def field_def)
    with ex Some v assms(2) have so: "spec_overrides rs = exact"
      by (simp add: spec_overrides_def field_def)
    from e ex Some v assms have "list_all (valid_override labels) exact"
      by (simp add: valid_overrides_def field_def)
    with so e ex Some v assms(2) show ?thesis by (intro that [of "JObj ov"]) simp_all
  qed
qed

lemma override_result_valid:
  assumes "valid_override labels entry"
    and "rs = JObj doc"
    and "map_of doc (ascii ''status_labels'') = Some (JObj labels)"
  shows "override_result (JObj labels) (snd entry) =
     Inr (spec_label rs (spec_status (snd entry)), spec_reason (snd entry))"
    and "is_str (spec_reason (snd entry))"
    and "map_of labels (spec_status (snd entry)) \<noteq> None"
proof -
  from assms(1) obtain st where st: "field (snd entry) (ascii ''status'') = Some st"
    by (auto simp: valid_override_def split: option.splits)
  with assms(1) obtain status where status: "st = JStr status" "map_of labels status \<noteq> None"
    by (cases st) (auto simp: valid_override_def)
  from st obtain fields where fields: "snd entry = JObj fields"
    by (cases "snd entry") (auto simp: field_def)
  from status(2) obtain label where label: "map_of labels status = Some label" by auto
  have ss: "spec_status (snd entry) = status"
    using st status(1) by (simp add: spec_status_def)
  have "spec_label rs status = label"
    using label assms(2,3) by (simp add: spec_label_def field_def)
  moreover have "py_get (snd entry) (ascii ''reason'') (JStr DEFAULT_OVERRIDE_REASON) =
      Inr (spec_reason (snd entry))"
    using fields by (simp add: spec_reason_def field_def split: option.splits)
  moreover have "getitem (snd entry) (JStr (ascii ''status'')) = Inr (JStr status)"
    using st status(1) fields by (simp add: getitem_JObj_JStr field_def)
  moreover have "getitem (JObj labels) (JStr status) = Inr label"
    using label by (simp add: getitem_JObj_JStr)
  ultimately show "override_result (JObj labels) (snd entry) =
     Inr (spec_label rs (spec_status (snd entry)), spec_reason (snd entry))"
    by (simp add: override_result_def ss)
  from assms(1) show "is_str (spec_reason (snd entry))"
    by (auto simp: valid_override_def spec_reason_def split: option.splits)
  from status(2) ss show "map_of labels (spec_status (snd entry)) \<noteq> None" by simp
qed

lemma find_in_set: "find P xs = Some x \<Longrightarrow> x \<in> set xs"
  by (auto simp: find_Some_iff)

lemma classify_material_valid:
  assumes "valid_ruleset rs"
  shows "classify_material material_name rs = Inr (classify_spec material_name rs)"
proof -
  from assms obtain doc labels rules where v:
    "rs = JObj doc"
    "map_of doc (ascii ''status_labels'') = Some (JObj labels)"
    "map_of doc (ascii ''rules'') = Some (JObj rules)"
    "list_all (\<lambda>entry. is_str (snd entry)) labels"
    "map_of labels (ascii ''haram'') \<noteq> None"
    "map_of labels (ascii ''review'') \<noteq> None"
    "map_of labels (ascii ''halal'') \<noteq> None"
    "valid_tier (JObj rules) (ascii ''haram_contains'')"
    "valid_tier (JObj rules) (ascii ''review_contains'')"
    "valid_tier (JObj rules) (ascii ''halal_contains'')"
    "valid_overrides labels rs"
    by (rule valid_rulesetD)
  define n where "n = normalize_text (JStr (case material_name of CStr s \<Rightarrow> s | _ \<Rightarrow> []))"
  from v(11,1) obtain ov where ov:
    "py_get rs (ascii ''overrides'') (JObj []) = Inr ov"
    "py_get ov (ascii ''exact'') (JObj []) = Inr (JObj (spec_overrides rs))"
    "list_all (valid_override labels) (spec_overrides rs)"
    by (rule overrides_valid)
  have g1: "getitem rs (JStr (ascii ''status_labels'')) = Inr (JObj labels)"
    using v(1,2) by (simp add: getitem_JObj_JStr)
  have g2: "getitem rs (JStr (ascii ''rules'')) = Inr (JObj rules)"
    using v(1,3) by (simp add: getitem_JObj_JStr)
  have ol: "override_loop (JObj labels) n (spec_overrides rs) =
      map_option (\<lambda>entry. Inr (spec_label rs (spec_status (snd entry)), spec_reason (snd entry)))
        (find (\<lambda>entry. normalize_text (JStr (fst entry)) = n) (spec_overrides rs))"
  proof (cases "find (\<lambda>entry. normalize_text (JStr (fst entry)) = n) (spec_overrides rs)")
    case None
    then show ?thesis by (simp only: override_loop_find option.map)
  next
    case (Some entry)
    then have "entry \<in> set (spec_overrides rs)" by (rule find_in_set)
    with ov(3) have "valid_override labels entry" by (simp add: list_all_iff)
    then have "override_result (JObj labels) (snd entry) =
        Inr (spec_label rs (spec_status (snd entry)), spec_reason (snd entry))"
      using v(1,2) by (rule override_result_valid(1))
    with Some show ?thesis by (simp only: override_loop_find option.map)
  qed
  from v(5) obtain l1 where "map_of labels (ascii ''haram'') = Some l1" by auto
  with v(8) have t1: "tier (JObj labels) (JObj rules) (ascii ''haram_contains'') (ascii ''haram'')
      HARAM_REASON n =
      map_option (\<lambda>keyword. Inr (spec_label rs (ascii ''haram''),
          JStr (HARAM_REASON @ format_keyword keyword)))
        (find (keyword_match n) (spec_tier rs (ascii ''haram_contains'')))"
    using v(1,3,2) by (rule tier_valid)
  from v(6) obtain l2 where "map_of labels (ascii ''review'') = Some l2" by auto
  with v(9) have t2: "tier (JObj labels) (JObj rules) (ascii ''review_contains'') (ascii ''review'')
      REVIEW_REASON n =
      map_option (\<lambda>keyword. Inr (spec_label rs (ascii ''review''),
          JStr (REVIEW_REASON @ format_keyword keyword)))
        (find (keyword_match n) (spec_tier rs (ascii ''review_contains'')))"
    using v(1,3,2) by (rule tier_valid)
  from v(7) obtain l3 where "map_of labels (ascii ''halal'') = Some l3" by auto
  with v(10) have t3: "tier (JObj labels) (JObj rules) (ascii ''halal_contains'') (ascii ''halal'')
      HALAL_REASON n =
      map_option (\<lambda>keyword. Inr (spec_label rs (ascii ''halal''),
          JStr (HALAL_REASON @ format_keyword keyword)))
        (find (keyword_match n) (spec_tier rs (ascii ''halal_contains'')))"
    using v(1,3,2) by (rule tier_valid)
  show ?thesis
    unfolding classify_material_def classify_spec_def Let_def n_def [symmetric]
    by (simp only: g1 g2 ov(1,2) py_items.simps sum.case ol t1 t2 t3 split: option.splits)
      (simp split: option.splits)
qed

lemma classify_spec_valid:
  assumes "valid_ruleset rs"
  shows "(is_str (fst (classify_spec material_name rs)) \<and>
          is_str (snd (classify_spec material_name rs))) \<or>
         classify_spec material_name rs = (JNull, JNull)"
proof -
  from assms obtain doc labels rules where v:
    "rs = JObj doc"
    "map_of doc (ascii ''status_labels'') = Some (JObj labels)"
    "map_of doc (ascii ''rules'') = Some (JObj rules)"
    "list_all (\<lambda>entry. is_str (snd entry)) labels"
    "map_of labels (ascii ''haram'') \<noteq> None"
    "map_of labels (ascii ''review'') \<noteq> None"
    "map_of labels (ascii ''halal'') \<noteq> None"
    "valid_tier (JObj rules) (ascii ''haram_contains'')"
    "valid_tier (JObj rules) (ascii ''review_contains'')"
    "valid_tier (JObj rules) (ascii ''halal_contains'')"
    "valid_overrides labels rs"
    by (rule valid_rulesetD)
  from v(11,1) obtain ov where ov:
    "list_all (valid_override labels) (spec_overrides rs)"
    by (rule overrides_valid)
  have lab: "is_str (spec_label rs status)" if "map_of labels status \<noteq> None" for status
  proof -
    from that obtain label where l: "map_of labels status = Some label" by auto
    with v(4) have "is_str label" by (rule map_of_is_str)
    with l v(1,2) show ?thesis by (simp add: spec_label_def field_def)
  qed
  have ovr: "is_str (spec_label rs (spec_status (snd entry))) \<and> is_str (spec_reason (snd entry))"
    if "find P (spec_overrides rs) = Some entry" for P entry
  proof -
    from that have "entry \<in> set (spec_overrides rs)" by (rule find_in_set)
    with ov have vo: "valid_override labels entry" by (simp add: list_all_iff)
    from override_result_valid(2,3) [OF vo v(1,2)] lab show ?thesis by blast
  qed
  show ?thesis
    unfolding classify_spec_def Let_def
    using lab [OF v(5)] lab [OF v(6)] lab [OF v(7)] ovr
    by (auto split: option.splits simp del: normalize_text.simps)
qed

section \<open>Examples\<close>


text \<open>
  The ruleset of the examples: the three labels, one keyword in each tier, the permitted
  tier first and the forbidden tier last in the file, and an exact override for
  \<open>Pork Water\<close> that gives no reason.
\<close>

definition example_ruleset :: json where
  "example_ruleset = JObj
     [(ascii ''status_labels'',
         JObj [(ascii ''halal'', JStr (ascii ''HALAL'')),
               (ascii ''haram'', JStr (ascii ''HARAM'')),
               (ascii ''review'', JStr (ascii ''REVIEW''))]),
      (ascii ''rules'',
         JObj [(ascii ''halal_contains'', JArr [JStr (ascii ''water'')]),
               (ascii ''review_contains'', JArr [JStr (ascii ''gelatin'')]),
               (ascii ''haram_contains'', JArr [JStr (ascii ''pork'')])]),
      (ascii ''overrides'',
         JObj [(ascii ''exact'',
            JObj [(ascii ''Pork Water'', JObj [(ascii ''status'', JStr (ascii ''review''))])])])]"

lemmas valid_defs = valid_ruleset_def example_ruleset_def field_def ascii_def valid_tier_def
  valid_overrides_def valid_override_def


lemma example_ruleset_valid: "valid_ruleset example_ruleset"
  by (simp add: valid_defs)

text \<open>The examples of section 8 of the specification, run on the code.\<close>

lemma normalize_text_example:
  "normalize_text (JStr (ascii ''  Pork  Gelatin '')) = ascii ''porkgelatin''"
  "normalize_text JNull = []"
  by (simp_all add: ascii_def strip_def lower_def lower_cp_def isspace_def)

lemma keyword_match_examples:
  "keyword_match (ascii ''x'') (JStr (ascii ''x''))"
  "\<not> keyword_match (ascii ''xy'') (JStr (ascii ''x''))"
  "keyword_match (ascii ''eggwhite'') (JStr (ascii ''egg''))"
  "\<not> keyword_match (ascii ''eggwhite'') (JStr (ascii ''  ''))"
  "\<not> keyword_match (ascii ''eggwhite'') (JInt 3)"
  by (simp_all add: keyword_match_def ascii_def strip_def lower_def lower_cp_def isspace_def)

lemma should_update_examples:
  "should_update (CStr (ascii ''HALAL'')) True"
  "should_update CNA False"
  "should_update (CStr (ascii ''  '')) False"
  "\<not> should_update (CStr (ascii ''HALAL'')) False"
  by (simp_all add: should_update_def ascii_def strip_def isspace_def)

lemma strip_json_comments_examples:
  "strip_json_comments (ascii ''1 /* a */ 2 // b'') = ascii ''1  2 ''"
  "strip_json_comments (ascii ''1 /* a */ 2 /* unterminated'') = ascii ''1  2 d''"
  "strip_json_comments (ascii ''/*'') = []"
  by code_simp+

section \<open>Claims\<close>

text \<open>
  C10. For every input text, the output of \<open>strip_json_comments\<close> is a subsequence of the
  input: characters are only deleted, never inserted, duplicated, replaced or reordered,
  so the output is never longer than the input.
\<close>

theorem strip_json_comments_subseq:
  "subseq (strip_json_comments raw_text) raw_text \<and>
   length (strip_json_comments raw_text) \<le> length raw_text"
proof -
  have "strip_json_comments raw_text = scanl raw_text False False"
    by (simp add: strip_json_comments_def scan_scanl)
  then have "subseq (strip_json_comments raw_text) raw_text"
    by (simp add: subseq_scanl)
  then show ?thesis by (simp add: list_emb_length)
qed

text \<open>
  C4. The claim is that a block comment that is never closed consumes the rest of the
  input. The loop that looks for \<open>*/\<close> stops one character before the end, and
  \<open>i += 2 if i + 1 < n else 0\<close> then leaves \<open>i\<close> on the last character, which the main loop
  scans again as ordinary text: for the input \<open>/*x\<close> the output is \<open>x\<close>, not the empty
  string.
\<close>

theorem strip_json_comments_unterminated_block:
  "strip_json_comments (ascii ''/*x'') = ascii ''x''"
  by code_simp

text \<open>
  C3. \<open>strip_json_comments\<close> is the identity on a text with no \<open>//\<close> and no \<open>/*\<close> outside
  double-quoted strings, that is, a text in which the specification's scanner finds no
  comment. For every input, the output is the input with some positions deleted, and no
  deleted position lies inside a double-quoted string, where a backslash escapes exactly
  the next character: the characters of a string are never dropped or changed, also when
  the string contains \<open>//\<close> or \<open>/*\<close>.
\<close>

theorem strip_json_comments_preserves_strings:
  "(Comment \<notin> set (regions Normal raw_text) \<longrightarrow> strip_json_comments raw_text = raw_text) \<and>
   (\<exists>keep. length keep = length raw_text \<and>
      strip_json_comments raw_text = kept raw_text keep \<and>
      list_all2 (\<lambda>r k. r = Str \<longrightarrow> k) (regions Normal raw_text) keep)"
proof -
  have eq: "strip_json_comments raw_text = scanl raw_text False False"
    by (simp add: strip_json_comments_def scan_scanl)
  from scanl_keeps [of False False raw_text]
  obtain keep where k: "length keep = length raw_text" "scanl raw_text False False = kept raw_text keep"
    "list_all2 keeps (regions Normal raw_text) keep" by auto
  have "strip_json_comments raw_text = raw_text" if "Comment \<notin> set (regions Normal raw_text)"
  proof -
    have "\<forall>k \<in> set keep. k"
    proof
      fix b assume "b \<in> set keep"
      then obtain i where i: "i < length keep" "keep ! i = b" by (auto simp: in_set_conv_nth)
      with k(3) have "keeps (regions Normal raw_text ! i) b"
        by (auto simp: list_all2_conv_all_nth)
      moreover from i k(3) have "regions Normal raw_text ! i \<in> set (regions Normal raw_text)"
        by (simp add: list_all2_lengthD)
      ultimately show b using that by metis
    qed
    with k(1,2) eq show ?thesis by (simp add: kept_all_True)
  qed
  moreover from k(3) have "list_all2 (\<lambda>r k. r = Str \<longrightarrow> k) (regions Normal raw_text) keep"
    by (rule list_all2_mono) auto
  ultimately show ?thesis using k(1,2) eq by auto
qed

theorem strip_json_comments_preserves_strings_witness:
  \<open>Comment \<notin> set (regions Normal (ascii ''{"a//b": "/*c'' @ [BACKSLASH, QUOTE] @ ascii ''*/"} ''))
   \<and> strip_json_comments (ascii ''{"a//b": "/*c'' @ [BACKSLASH, QUOTE] @ ascii ''*/"} '')
     = ascii ''{"a//b": "/*c'' @ [BACKSLASH, QUOTE] @ ascii ''*/"} ''\<close>
  using strip_json_comments_preserves_strings
    [of \<open>ascii ''{"a//b": "/*c'' @ [BACKSLASH, QUOTE] @ ascii ''*/"} ''\<close>]
  by (simp add: ascii_def)




text \<open>
  C8. \<open>should_update\<close> is true when the overwrite flag is set, whatever the existing
  status. Otherwise it is true exactly when the existing status is missing
  (\<open>pd.isna\<close>) or is a string that is empty or all whitespace, and false in every other
  case.
\<close>

theorem should_update_rule:
  "should_update existing_status overwrite =
     (overwrite \<or> pd_isna existing_status \<or>
      (case existing_status of CStr s \<Rightarrow> list_all isspace s | _ \<Rightarrow> False))"
  by (cases existing_status) (simp_all add: should_update_def strip_empty)



text \<open>
  C9. For every material name and every valid ruleset, the pair that \<open>classify_material\<close>
  returns has both components present or both absent (\<open>None\<close>, here \<open>JNull\<close>).
\<close>

theorem classify_material_both_or_neither:
  "valid_ruleset ruleset \<Longrightarrow>
   \<exists>status reason. classify_material material_name ruleset = Inr (status, reason) \<and>
     ((status = JNull) = (reason = JNull))"
proof -
  assume v: "valid_ruleset ruleset"
  obtain status reason where sr: "classify_spec material_name ruleset = (status, reason)"
    by (cases "classify_spec material_name ruleset")
  with classify_spec_valid [OF v, of material_name]
  have "(is_str status \<and> is_str reason) \<or> (status = JNull \<and> reason = JNull)" by simp
  then have "(status = JNull) = (reason = JNull)" by auto
  with classify_material_valid [OF v, of material_name] sr show ?thesis by simp
qed

theorem classify_material_both_or_neither_witness:
  "valid_ruleset example_ruleset \<and>
   (\<exists>status reason. classify_material CNone example_ruleset = Inr (status, reason) \<and>
     ((status = JNull) = (reason = JNull)))"
  using classify_material_both_or_neither [OF example_ruleset_valid, of CNone]
    example_ruleset_valid
  by simp




end
